theory Spec2Isabelle
  imports Main "HOL-Library.Sublist" "HOL-Library.Char_ord" "HOL-Library.List_Lexorder"
    "HOL-Library.Multiset"
begin

section \<open>Strings\<close>

text \<open>
  Python strings are modelled as \<^typ>\<open>string\<close>, that is, as lists of characters with
  code points below 256. The order on characters is the order of their code points
  (\<open>HOL-Library.Char_ord\<close>) and the order on strings is the lexicographic one
  (\<open>HOL-Library.List_Lexorder\<close>), as for Python's \<^verbatim>\<open>str\<close>.
\<close>

text \<open>
  \<^verbatim>\<open>str.isspace\<close> on one character, for code points below 256: TAB, LF, VT, FF, CR,
  FS, GS, RS, US, SPACE, NEL (0x85) and NBSP (0xA0).
\<close>

definition isspace :: "char \<Rightarrow> bool" where
  "isspace c \<longleftrightarrow> of_char c \<in> {9::nat, 10, 11, 12, 13, 28, 29, 30, 31, 32, 133, 160}"

text \<open>\<^verbatim>\<open>s.strip()\<close>: leading and trailing whitespace removed.\<close>

definition strip :: "string \<Rightarrow> string" where
  "strip s = rev (dropWhile isspace (rev (dropWhile isspace s)))"

text \<open>\<^verbatim>\<open>s.startswith('.')\<close>.\<close>

definition startswith_dot :: "string \<Rightarrow> bool" where
  "startswith_dot s \<longleftrightarrow> prefix ''.'' s"

section \<open>The response sanitizer\<close>

text \<open>The marker of a markdown code fence.\<close>

definition backticks :: string where
  "backticks = ''```''"

text \<open>
  The tail \<^verbatim>\<open>\n?\<close> of both patterns: one newline is consumed when it is there
  (the quantifier is greedy).
\<close>

definition optional_newline :: "string \<Rightarrow> string" where
  "optional_newline s = (case s of [] \<Rightarrow> [] | c # cs \<Rightarrow> if c = CHR 0x0A then cs else s)"

text \<open>
  \<^verbatim>\<open>re.sub(r'```' + tag + r'\n?', '', s)\<close> for a literal \<open>tag\<close>: the string is scanned
  from the left; where the three backticks and the tag start, they and one optional
  newline are removed and the scan goes on behind them; elsewhere the character is kept.
  The source calls it with the tags \<^verbatim>\<open>latex\<close> and the empty one.
\<close>

function re_sub_fence :: "string \<Rightarrow> string \<Rightarrow> string" where
  "re_sub_fence tag s =
     (if s = [] then []
      else if prefix (backticks @ tag) s
      then re_sub_fence tag (optional_newline (drop (length (backticks @ tag)) s))
      else hd s # re_sub_fence tag (tl s))"
  by pat_completeness auto
termination
proof (relation "measure (\<lambda>(tag, s). length s)")
  show "wf (measure (\<lambda>(tag, s). length s))"
    by simp
next
  fix tag s :: string
  assume "s \<noteq> []"
  then show "((tag, tl s), (tag, s)) \<in> measure (\<lambda>(tag, s). length s)"
    by (cases s) simp_all
next
  fix tag s :: string
  assume s: "s \<noteq> []"
  let ?r = "drop (length (backticks @ tag)) s"
  have "length (optional_newline r) \<le> length r" for r
    by (simp add: optional_newline_def split: list.splits)
  then have "length (optional_newline ?r) \<le> length ?r" .
  moreover have "length ?r < length s"
    using s by (simp add: backticks_def)
  ultimately show "((tag, optional_newline ?r), (tag, s)) \<in> measure (\<lambda>(tag, s). length s)"
    by simp
qed

declare re_sub_fence.simps [simp del]

text \<open>Python's truth value of a string or \<^verbatim>\<open>None\<close>: \<^verbatim>\<open>not x\<close>.\<close>

definition falsy :: "string option \<Rightarrow> bool" where
  "falsy x \<longleftrightarrow> x = None \<or> x = Some []"

text \<open>\<^verbatim>\<open>clean_latex_output\<close>; \<open>None\<close> is Python's \<^verbatim>\<open>None\<close>.\<close>

definition clean_latex_output :: "string option \<Rightarrow> string option" where
  "clean_latex_output latex_code =
     (if falsy latex_code then None
      else
        let latex_code1 = re_sub_fence ''latex'' (the latex_code);
            latex_code2 = re_sub_fence [] latex_code1
        in Some (strip latex_code2))"

text \<open>No three backticks in a row anywhere in the string.\<close>

fun fence_free :: "string \<Rightarrow> bool" where
  "fence_free [] = True"
| "fence_free (c # cs) = (\<not> prefix backticks (c # cs) \<and> fence_free cs)"

section \<open>Paths\<close>

text \<open>
  A path below \<^verbatim>\<open>images/\<close> or \<^verbatim>\<open>codes/\<close> is modelled by its final component, the
  name. \<^verbatim>\<open>name.rfind('.')\<close>: the index of the last dot, \<open>None\<close> for Python's \<open>-1\<close>.
\<close>

definition rfind_dot :: "string \<Rightarrow> nat option" where
  "rfind_dot name =
     (if CHR ''.'' \<in> set name
      then Some (length name - 1 - length (takeWhile (\<lambda>c. c \<noteq> CHR ''.'') (rev name)))
      else None)"

text \<open>
  \<^verbatim>\<open>PurePath.suffix\<close> and \<^verbatim>\<open>PurePath.stem\<close>: the name is cut at its last dot when
  \<^verbatim>\<open>0 < i < len(name) - 1\<close>.
\<close>

definition path_suffix :: "string \<Rightarrow> string" where
  "path_suffix name =
     (case rfind_dot name of
        None \<Rightarrow> []
      | Some i \<Rightarrow> if 0 < i \<and> i < length name - 1 then drop i name else [])"

definition path_stem :: "string \<Rightarrow> string" where
  "path_stem name =
     (case rfind_dot name of
        None \<Rightarrow> name
      | Some i \<Rightarrow> if 0 < i \<and> i < length name - 1 then take i name else name)"

text \<open>\<^verbatim>\<open>str.lower\<close> for code points below 256.\<close>

definition lower_char :: "char \<Rightarrow> char" where
  "lower_char c =
     (let n = of_char c :: nat
      in if (65 \<le> n \<and> n \<le> 90) \<or> (192 \<le> n \<and> n \<le> 222 \<and> n \<noteq> 215)
         then char_of (n + 32) else c)"

definition lower :: "string \<Rightarrow> string" where
  "lower s = map lower_char s"

definition mime_types :: "(string \<times> string) list" where
  "mime_types =
     [(''.png'', ''image/png''),
      (''.jpg'', ''image/jpeg''),
      (''.jpeg'', ''image/jpeg''),
      (''.gif'', ''image/gif''),
      (''.webp'', ''image/webp'')]"

definition get_image_mime_type :: "string \<Rightarrow> string" where
  "get_image_mime_type image_path =
     (let suffix = lower (path_suffix image_path)
      in case map_of mime_types suffix of Some m \<Rightarrow> m | None \<Rightarrow> ''image/png'')"

text \<open>
  \<^verbatim>\<open>self.supported_formats\<close>. The source holds a set, whose iteration order is not
  fixed; the model iterates in the order written here, and the list of images is sorted
  before it is used.
\<close>

definition supported_formats :: "string list" where
  "supported_formats = [''.png'', ''.jpg'', ''.jpeg'', ''.gif'', ''.webp'']"

text \<open>
  \<^verbatim>\<open>self.images_dir.glob(f"*{suffix}")\<close> over the entries of the directory, for a
  literal \<open>suffix\<close>: the names that end with it, compared character by character as
  pathlib does on POSIX systems (on Windows it ignores the case of letters). The star
  also matches a leading dot and the empty text.
\<close>

definition glob_star :: "string list \<Rightarrow> string \<Rightarrow> string list" where
  "glob_star entries sfx = filter (\<lambda>name. suffix sfx name) entries"

text \<open>The list \<^verbatim>\<open>image_files\<close> that \<^verbatim>\<open>process_all_images\<close> collects.\<close>

definition image_files :: "string list \<Rightarrow> string list" where
  "image_files entries = concat (map (glob_star entries) supported_formats)"

section \<open>The environment and the effects\<close>

text \<open>
  What the program finds around itself is an input of the model:
  the environment variable, the entries of \<^verbatim>\<open>images/\<close> in listing order (\<open>None\<close> when
  the directory does not exist), the bytes read from an image (\<open>None\<close> when
  \<^verbatim>\<open>open\<close> or \<^verbatim>\<open>read\<close> raises), \<^verbatim>\<open>base64.b64encode\<close>, the answer of the
  inference service to the request made for an image (the text of the first choice;
  \<open>None\<close> when the call or the access to that text raises), whether writing a text
  to a file of \<^verbatim>\<open>codes/\<close> succeeds, and what a write that fails leaves in the file
  (\<open>None\<close> when \<^verbatim>\<open>open\<close> raises, so that the file is untouched; the text the file
  holds when \<^verbatim>\<open>open\<close>, which truncates it, has succeeded and the exception comes
  after). For \<^verbatim>\<open>__init__\<close>: whether building the client raises, and whether
  \<^verbatim>\<open>codes\<close> exists as something that is not a directory, so that
  \<^verbatim>\<open>mkdir(exist_ok=True)\<close> raises.
\<close>

record env =
  api_key :: "string option"
  images :: "string list option"
  image_bytes :: "string \<Rightarrow> string option"
  b64encode :: "string \<Rightarrow> string"
  completion :: "string \<Rightarrow> string \<Rightarrow> string \<Rightarrow> string option"
  write_ok :: "string \<Rightarrow> string \<Rightarrow> bool"
  failed_write_leaves :: "string \<Rightarrow> string \<Rightarrow> string option"
  client_raises :: bool
  codes_is_file :: bool

text \<open>The lines the program prints, with the values formatted into them.\<close>

datatype line =
    Banner
  | Rule nat
  | Key_missing
  | Key_export_hint
  | Dir_not_found
  | No_supported_images
  | Found_images nat
  | Processing string
  | Error_analyzing string
  | Failed_to_analyze string
  | No_valid_latex string
  | Saved string
  | Error_saving string
  | Processing_complete
  | Successful nat
  | Failed nat
  | Output_directory

text \<open>
  What the program does to the outside, in order: a printed line, the creation of
  \<^verbatim>\<open>codes/\<close>, an image opened for reading, a request sent to the inference service
  (MIME type and payload), a file of \<^verbatim>\<open>codes/\<close> written.
\<close>

datatype event =
    Print line
  | Mkdir_codes
  | Open_read string
  | Request string string
  | Write string string

text \<open>
  The exceptions the model follows: the one that \<^verbatim>\<open>open\<close> or \<^verbatim>\<open>read\<close> raises for
  an image, with the name of the image, and the two of \<^verbatim>\<open>__init__\<close>. The exceptions of
  the inference call and of the write are caught where they are raised and appear as
  results.
\<close>

datatype exn = OSError string | OpenAIError | FileExistsError

text \<open>The files of \<^verbatim>\<open>codes/\<close> by name, and the effects so far.\<close>

record world =
  codes :: "string \<rightharpoonup> string"
  trace :: "event list"

definition emit :: "event \<Rightarrow> world \<Rightarrow> world" where
  "emit ev w = w\<lparr>trace := trace w @ [ev]\<rparr>"

section \<open>The converter\<close>

text \<open>
  \<^verbatim>\<open>__init__\<close>: the client is built, then \<^verbatim>\<open>codes/\<close> is created when missing.
  Either step can raise, and nothing catches it.
\<close>

definition init_converter :: "env \<Rightarrow> world \<Rightarrow> (exn + unit) \<times> world" where
  "init_converter e w =
     (if client_raises e then (Inl OpenAIError, w)
      else if codes_is_file e then (Inl FileExistsError, w)
      else (Inr (), emit Mkdir_codes w))"

definition encode_image_to_base64 :: "env \<Rightarrow> string \<Rightarrow> world \<Rightarrow> (exn + string) \<times> world" where
  "encode_image_to_base64 e image_path w =
     (case image_bytes e image_path of
        None \<Rightarrow> (Inl (OSError image_path), emit (Open_read image_path) w)
      | Some bytes \<Rightarrow> (Inr (b64encode e bytes), emit (Open_read image_path) w))"

text \<open>
  \<^verbatim>\<open>analyze_algorithm_image\<close>: the image is encoded before the \<^verbatim>\<open>try\<close> block; the
  block holds the request and the access to its answer.
\<close>

definition analyze_algorithm_image ::
  "env \<Rightarrow> string \<Rightarrow> world \<Rightarrow> (exn + string option) \<times> world" where
  "analyze_algorithm_image e image_path w =
     (case encode_image_to_base64 e image_path w of
        (Inl x, w1) \<Rightarrow> (Inl x, w1)
      | (Inr base64_image, w1) \<Rightarrow>
          let mime_type = get_image_mime_type image_path;
              w2 = emit (Request mime_type base64_image) w1
          in (case completion e image_path mime_type base64_image of
                Some content \<Rightarrow> (Inr (Some (strip content)), w2)
              | None \<Rightarrow> (Inr None, emit (Print (Error_analyzing image_path)) w2)))"

text \<open>
  \<^verbatim>\<open>save_latex_code\<close>: every exception of the \<^verbatim>\<open>with\<close> block is caught and
  reported as \<^verbatim>\<open>False\<close>. When the file was opened before the exception, it has been
  truncated.
\<close>

definition save_latex_code :: "env \<Rightarrow> string \<Rightarrow> string \<Rightarrow> world \<Rightarrow> bool \<times> world" where
  "save_latex_code e latex_code output_path w =
     (if write_ok e output_path latex_code
      then (True,
            emit (Print (Saved output_path))
              (emit (Write output_path latex_code)
                 (w\<lparr>codes := (codes w)(output_path \<mapsto> latex_code)\<rparr>)))
      else (False,
            emit (Print (Error_saving output_path))
              (case failed_write_leaves e output_path latex_code of
                 None \<Rightarrow> w
               | Some left \<Rightarrow> w\<lparr>codes := (codes w)(output_path \<mapsto> left)\<rparr>)))"

definition process_single_image :: "env \<Rightarrow> string \<Rightarrow> world \<Rightarrow> (exn + bool) \<times> world" where
  "process_single_image e image_path w =
     (case analyze_algorithm_image e image_path (emit (Print (Processing image_path)) w) of
        (Inl x, w1) \<Rightarrow> (Inl x, w1)
      | (Inr latex_code, w1) \<Rightarrow>
          if falsy latex_code
          then (Inr False, emit (Print (Failed_to_analyze image_path)) w1)
          else
            let cleaned_code = clean_latex_output latex_code
            in if falsy cleaned_code
               then (Inr False, emit (Print (No_valid_latex image_path)) w1)
               else
                 let base_name = path_stem image_path;
                     output_path = base_name @ ''.tex'';
                     (ok, w2) = save_latex_code e (the cleaned_code) output_path w1
                 in (Inr ok, w2))"

text \<open>
  The \<^verbatim>\<open>for\<close> loop of \<^verbatim>\<open>process_all_images\<close> with its two counters. Nothing
  in the loop catches an exception: the one of \<^verbatim>\<open>process_single_image\<close> ends it.
\<close>

fun process_loop ::
  "env \<Rightarrow> string list \<Rightarrow> nat \<Rightarrow> nat \<Rightarrow> world \<Rightarrow> (exn + nat \<times> nat) \<times> world" where
  "process_loop e [] successful failed w = (Inr (successful, failed), w)"
| "process_loop e (image_path # rest) successful failed w =
     (if startswith_dot image_path then process_loop e rest successful failed w
      else
        case process_single_image e image_path w of
          (Inl x, w1) \<Rightarrow> (Inl x, w1)
        | (Inr ok, w1) \<Rightarrow>
            if ok then process_loop e rest (successful + 1) failed w1
            else process_loop e rest successful (failed + 1) w1)"

definition print_summary :: "nat \<Rightarrow> nat \<Rightarrow> world \<Rightarrow> world" where
  "print_summary successful failed w =
     emit (Print Output_directory)
       (emit (Print (Failed failed))
          (emit (Print (Successful successful))
             (emit (Print Processing_complete)
                (emit (Print (Rule 50)) w))))"

text \<open>
  \<^verbatim>\<open>process_all_images\<close>. The paths in \<^verbatim>\<open>image_files\<close> lie in one directory, so
  \<^verbatim>\<open>sorted\<close> orders them by their names.
\<close>

definition process_all_images :: "env \<Rightarrow> world \<Rightarrow> (exn + unit) \<times> world" where
  "process_all_images e w =
     (case images e of
        None \<Rightarrow> (Inr (), emit (Print Dir_not_found) w)
      | Some entries \<Rightarrow>
          let files = image_files entries
          in if files = [] then (Inr (), emit (Print No_supported_images) w)
             else
               let w1 = emit (Print (Rule 50)) (emit (Print (Found_images (length files))) w)
               in (case process_loop e (sort files) 0 0 w1 of
                     (Inl x, w2) \<Rightarrow> (Inl x, w2)
                   | (Inr (successful, failed), w2) \<Rightarrow>
                       (Inr (), print_summary successful failed w2)))"

definition main :: "env \<Rightarrow> world \<Rightarrow> (exn + unit) \<times> world" where
  "main e w =
     (let w1 = emit (Print (Rule 40)) (emit (Print Banner) w)
      in if falsy (api_key e)
         then (Inr (), emit (Print Key_export_hint) (emit (Print Key_missing) w1))
         else (case init_converter e w1 of
                 (Inl x, w2) \<Rightarrow> (Inl x, w2)
               | (Inr converter, w2) \<Rightarrow> process_all_images e w2))"

text \<open>The images for which \<^verbatim>\<open>process_single_image\<close> was entered, in order.\<close>

fun processed :: "event list \<Rightarrow> string list" where
  "processed [] = []"
| "processed (Print (Processing name) # evs) = name # processed evs"
| "processed (ev # evs) = processed evs"

text \<open>The images opened and the requests sent, in order.\<close>

fun reads_and_requests :: "event list \<Rightarrow> event list" where
  "reads_and_requests [] = []"
| "reads_and_requests (Open_read name # evs) = Open_read name # reads_and_requests evs"
| "reads_and_requests (Request m b # evs) = Request m b # reads_and_requests evs"
| "reads_and_requests (ev # evs) = reads_and_requests evs"

text \<open>The writes to \<^verbatim>\<open>codes/\<close>, in order.\<close>

fun writes :: "event list \<Rightarrow> (string \<times> string) list" where
  "writes [] = []"
| "writes (Write name text # evs) = (name, text) # writes evs"
| "writes (ev # evs) = writes evs"

section \<open>Concrete runs\<close>

text \<open>
  An inference service that answers every request with a fenced block holding the MIME
  type it was sent, an environment in which every write succeeds and the payload
  encoding is left as the bytes themselves, and the world before the program starts.
\<close>

definition fenced_service :: "string \<Rightarrow> string \<Rightarrow> string \<Rightarrow> string option" where
  "fenced_service image_path mime_type payload =
     Some (backticks @ ''latex\<newline>'' @ mime_type @ ''\<newline>'' @ backticks)"

definition env_of ::
  "string list option \<Rightarrow> (string \<Rightarrow> string option) \<Rightarrow>
   (string \<Rightarrow> string \<Rightarrow> string \<Rightarrow> string option) \<Rightarrow> env" where
  "env_of dir files service =
     \<lparr>api_key = Some ''sk-key'', images = dir, image_bytes = files,
      b64encode = (\<lambda>bytes. bytes), completion = service,
      write_ok = (\<lambda>path text. True), failed_write_leaves = (\<lambda>path text. None),
      client_raises = False, codes_is_file = False\<rparr>"

definition world0 :: world where
  "world0 = \<lparr>codes = Map.empty, trace = []\<rparr>"

section \<open>Properties of the sanitizer\<close>


lemma re_sub_Nil [simp]: "re_sub_fence tag [] = []"
  by (simp add: re_sub_fence.simps)

lemma re_sub_Cons:
  "re_sub_fence tag (c # cs) =
     (if prefix (backticks @ tag) (c # cs)
      then re_sub_fence tag (optional_newline (drop (length (backticks @ tag)) (c # cs)))
      else c # re_sub_fence tag cs)"
  by (subst re_sub_fence.simps) (simp only: list.distinct if_False list.sel)



lemma prefix_fence_tag: "prefix (backticks @ tag) s \<Longrightarrow> prefix backticks s"
  by (metis append_prefixD)

lemma re_sub_fence_free: "fence_free s \<Longrightarrow> re_sub_fence tag s = s"
proof (induction s)
  case Nil
  show ?case by simp
next
  case (Cons c cs)
  then have "\<not> prefix (backticks @ tag) (c # cs)"
    using prefix_fence_tag by fastforce
  with Cons show ?case by (simp add: re_sub_Cons)
qed

lemma re_sub_hd_backtick:
  "re_sub_fence tag s = CHR 0x60 # r \<Longrightarrow> \<exists>t. s = CHR 0x60 # t"
  by (cases s) (auto simp: re_sub_Cons backticks_def split: if_splits)

lemma backticks_Cons:
  "prefix backticks (c # cs) \<longleftrightarrow> c = CHR 0x60 \<and> prefix ''``'' cs"
  by (auto simp: backticks_def)

lemma fence_free_re_sub: "fence_free (re_sub_fence [] s)"
proof (induction "[] :: string" s rule: re_sub_fence.induct)
  case (1 s)
  show ?case
  proof (cases s)
    case Nil
    then show ?thesis by simp
  next
    case (Cons c cs)
    show ?thesis
    proof (cases "prefix backticks s")
      case True
      with 1(1) Cons show ?thesis by (simp add: re_sub_Cons)
    next
      case False
      with 1(2) Cons have ih: "fence_free (re_sub_fence [] cs)" by simp
      have "\<not> prefix backticks (c # re_sub_fence [] cs)"
      proof
        assume p: "prefix backticks (c # re_sub_fence [] cs)"
        then have c: "c = CHR 0x60" by (simp add: backticks_Cons)
        from p obtain r where r: "re_sub_fence [] cs = CHR 0x60 # r" and pr: "prefix ''`'' r"
          by (cases "re_sub_fence [] cs") (auto simp: backticks_Cons)
        from re_sub_hd_backtick [OF r] obtain t where t: "cs = CHR 0x60 # t" by blast
        from False Cons c t have nt: "\<not> prefix ''`'' t" by (simp add: backticks_Cons)
        then have "\<not> prefix backticks cs" using t by (cases t) (auto simp: backticks_Cons)
        with t r have "r = re_sub_fence [] t" by (simp add: re_sub_Cons)
        with pr have "prefix ''`'' (re_sub_fence [] t)" by simp
        then obtain r' where "re_sub_fence [] t = CHR 0x60 # r'"
          by (cases "re_sub_fence [] t") auto
        from re_sub_hd_backtick [OF this] nt show False by auto
      qed
      with ih False Cons show ?thesis by (simp add: re_sub_Cons)
    qed
  qed
qed


lemma fence_free_append: "fence_free (xs @ ys) \<Longrightarrow> fence_free xs \<and> fence_free ys"
proof (induction xs)
  case Nil
  then show ?case by simp
next
  case (Cons x xs)
  have "\<not> prefix backticks (x # xs)"
    using Cons.prems prefix_prefix [of backticks "x # xs" ys] by auto
  with Cons show ?case by simp
qed

lemma fence_free_strip: "fence_free s \<Longrightarrow> fence_free (strip s)"
proof -
  assume f: "fence_free s"
  let ?d = "dropWhile isspace s"
  have "s = takeWhile isspace s @ ?d" by simp
  with f have d: "fence_free ?d" by (metis fence_free_append)
  have "?d = strip s @ rev (takeWhile isspace (rev ?d))"
    unfolding strip_def by (metis rev_append rev_rev_ident takeWhile_dropWhile_id)
  with d show ?thesis by (metis fence_free_append)
qed

lemma strip_ends:
  "strip s = [] \<or> (\<not> isspace (hd (strip s)) \<and> \<not> isspace (last (strip s)))"
proof (cases "strip s = []")
  case True
  then show ?thesis by simp
next
  case False
  define d where "d = dropWhile isspace s"
  define e where "e = dropWhile isspace (rev d)"
  have st: "strip s = rev e" by (simp add: strip_def d_def e_def)
  with False have e: "e \<noteq> []" by simp
  then have 1: "\<not> isspace (hd e)" unfolding e_def by (rule hd_dropWhile)
  have "last (strip s) = hd e" using e by (simp add: st last_rev)
  with 1 have l: "\<not> isspace (last (strip s))" by simp
  have dn: "d \<noteq> []" using e unfolding e_def by auto
  then have 2: "\<not> isspace (hd d)" unfolding d_def by (rule hd_dropWhile)
  have "rev d = takeWhile isspace (rev d) @ e" by (simp add: e_def)
  then have "d = rev e @ rev (takeWhile isspace (rev d))"
    by (metis rev_append rev_rev_ident)
  with False st have "hd d = hd (strip s)" by (metis hd_append2)
  with 2 l show ?thesis by simp
qed

lemma strip_idem: "strip (strip s) = strip s"
proof (cases "strip s = []")
  case True
  have "strip [] = []" by (simp add: strip_def)
  with True show ?thesis by simp
next
  case False
  with strip_ends [of s] have h: "\<not> isspace (hd (strip s))" and l: "\<not> isspace (last (strip s))"
    by auto
  from False h have 1: "dropWhile isspace (strip s) = strip s"
    by (cases "strip s") auto
  from False l have 2: "dropWhile isspace (rev (strip s)) = rev (strip s)"
    by (cases "rev (strip s)") (auto simp: last_rev hd_rev)
  show ?thesis
    by (subst (1) strip_def) (simp add: 1 2)
qed

lemma clean_Some:
  "s \<noteq> [] \<Longrightarrow> clean_latex_output (Some s) = Some (strip (re_sub_fence [] (re_sub_fence ''latex'' s)))"
  by (simp add: clean_latex_output_def falsy_def)

lemma clean_fixed: "clean_latex_output (Some s) = Some y \<Longrightarrow> y \<noteq> [] \<Longrightarrow> clean_latex_output (Some y) = Some y"
proof -
  assume a: "clean_latex_output (Some s) = Some y" and y: "y \<noteq> []"
  from a have s: "s \<noteq> []" by (auto simp: clean_latex_output_def falsy_def)
  with a have ydef: "y = strip (re_sub_fence [] (re_sub_fence ''latex'' s))"
    by (simp add: clean_Some)
  then have ff: "fence_free y"
    by (simp add: fence_free_strip fence_free_re_sub)
  have "strip y = y" unfolding ydef by (rule strip_idem)
  with ff y show ?thesis
    by (simp add: clean_Some re_sub_fence_free)
qed

text \<open>
  C5, as amended. Applying the sanitizer to its own result gives that result again, except
  when the result is the empty string: then the second application gives \<open>None\<close>.
\<close>

theorem clean_twice:
  "clean_latex_output (clean_latex_output (Some s)) =
     (if clean_latex_output (Some s) = Some [] then None else clean_latex_output (Some s))"
proof (cases "clean_latex_output (Some s)")
  case None
  then show ?thesis by (simp add: clean_latex_output_def falsy_def)
next
  case (Some y)
  show ?thesis
  proof (cases "y = []")
    case True
    with Some show ?thesis by (simp add: clean_latex_output_def falsy_def)
  next
    case False
    with Some clean_fixed [OF Some False] show ?thesis by simp
  qed
qed



lemma short_fence_free:
  assumes "fence_free body" "prefix backticks (body @ backticks)"
  shows "body @ backticks = backticks @ body"
proof -
  have n: "\<not> prefix backticks body"
    using assms(1) by (cases body) (auto simp: backticks_def)
  consider "body = []" | c where "body = [c]" | c d where "body = [c, d]"
    | c d e r where "body = c # d # e # r"
    by (metis list.exhaust)
  then show ?thesis
  proof cases
    case 1 then show ?thesis by simp
  next
    case 2 with assms(2) show ?thesis by (auto simp: backticks_def)
  next
    case 3 with assms(2) show ?thesis by (auto simp: backticks_def)
  next
    case 4 with assms(2) n show ?thesis by (auto simp: backticks_def)
  qed
qed

lemma re_sub_closing_fence:
  "fence_free body \<Longrightarrow> re_sub_fence [] (body @ backticks) = body"
proof (induction body)
  case Nil
  show ?case by (simp add: re_sub_Cons backticks_def optional_newline_def)
next
  case (Cons c cs)
  show ?case
  proof (cases "prefix backticks ((c # cs) @ backticks)")
    case True
    from short_fence_free [OF Cons.prems True]
    have eq: "(c # cs) @ backticks = backticks @ (c # cs)" .
    have "re_sub_fence [] ((c # cs) @ backticks) =
            re_sub_fence [] (optional_newline (drop (length backticks) ((c # cs) @ backticks)))"
      using True by (simp add: re_sub_Cons)
    also have "drop (length backticks) ((c # cs) @ backticks) = c # cs"
      unfolding eq by simp
    also have "optional_newline (c # cs) = c # cs"
      using True by (auto simp: optional_newline_def backticks_def)
    also have "re_sub_fence [] (c # cs) = c # cs"
      using Cons.prems by (rule re_sub_fence_free)
    finally show ?thesis .
  next
    case False
    with Cons show ?thesis by (simp add: re_sub_Cons)
  qed
qed

lemma re_sub_latex_closing_fence:
  "fence_free body \<Longrightarrow> re_sub_fence ''latex'' (body @ backticks) = body @ backticks"
proof (induction body)
  case Nil
  show ?case by (simp add: re_sub_Cons backticks_def)
next
  case (Cons c cs)
  have "\<not> prefix (backticks @ ''latex'') ((c # cs) @ backticks)"
  proof
    assume p: "prefix (backticks @ ''latex'') ((c # cs) @ backticks)"
    then have "prefix backticks ((c # cs) @ backticks)" by (rule prefix_fence_tag)
    from short_fence_free [OF Cons.prems this] p
    have "prefix (backticks @ ''latex'') (backticks @ (c # cs))" by simp
    then have 1: "prefix ''latex'' (c # cs)" by simp
    from p have "c = CHR 0x60" by (simp add: backticks_def)
    with 1 show False by simp
  qed
  with Cons show ?case by (simp add: re_sub_Cons)
qed

text \<open>
  C2, as amended. For a response that opens with three backticks, the tag \<^verbatim>\<open>latex\<close> or
  no tag, and a newline, and that closes with three backticks, with no three backticks in
  a row between them, the sanitizer returns what is between the fences, stripped.
\<close>

theorem clean_fenced:
  assumes "tag = [] \<or> tag = ''latex''" and "fence_free body"
  shows "clean_latex_output (Some (backticks @ tag @ ''\<newline>'' @ body @ backticks)) = Some (strip body)"
proof -
  let ?s = "backticks @ tag @ ''\<newline>'' @ body @ backticks"
  have ne: "?s \<noteq> []" by (simp add: backticks_def)
  have 1: "re_sub_fence ''latex'' ?s = (if tag = [] then backticks @ ''\<newline>'' else []) @ body @ backticks"
  proof (cases "tag = []")
    case True
    then show ?thesis
      using re_sub_latex_closing_fence [OF assms(2)]
      by (simp add: re_sub_Cons backticks_def)
  next
    case False
    with assms(1) have t: "tag = ''latex''" by simp
    have "prefix (backticks @ ''latex'') ?s" by (simp add: t)
    then have "re_sub_fence ''latex'' ?s = re_sub_fence ''latex'' (optional_newline (drop (length (backticks @ ''latex'')) ?s))"
      by (subst re_sub_fence.simps) (simp add: backticks_def)
    also have "drop (length (backticks @ ''latex'')) ?s = ''\<newline>'' @ body @ backticks"
      by (simp add: t)
    also have "optional_newline (''\<newline>'' @ body @ backticks) = body @ backticks"
      by (simp add: optional_newline_def)
    finally show ?thesis
      using re_sub_latex_closing_fence [OF assms(2)] t by simp
  qed
  have 2: "re_sub_fence [] (re_sub_fence ''latex'' ?s) = body"
  proof (cases "tag = []")
    case True
    have "re_sub_fence [] (backticks @ ''\<newline>'' @ body @ backticks) =
          re_sub_fence [] (optional_newline (drop (length backticks) (backticks @ ''\<newline>'' @ body @ backticks)))"
      by (subst re_sub_fence.simps) (simp add: backticks_def)
    also have "\<dots> = re_sub_fence [] (body @ backticks)"
      by (simp add: optional_newline_def)
    finally show ?thesis
      using True 1 re_sub_closing_fence [OF assms(2)] by simp
  next
    case False
    with 1 re_sub_closing_fence [OF assms(2)] show ?thesis by simp
  qed
  show ?thesis
    using 2 clean_Some [OF ne] by simp
qed


lemmas clean_eval =
  clean_latex_output_def falsy_def re_sub_Cons optional_newline_def strip_def isspace_def
  backticks_def

theorem clean_fenced_witness:
  "clean_latex_output (Some ''```latex\<newline>while x: x = x - 1\<newline>```'')
     = Some ''while x: x = x - 1''"
proof -
  have t: "''latex'' = [] \<or> ''latex'' = ''latex''" by simp
  have f: "fence_free ''while x: x = x - 1\<newline>''"
    by (simp add: backticks_def)
  show ?thesis
    using clean_fenced [OF t f] by (simp add: backticks_def strip_def isspace_def)
qed

text \<open>
  C2 as stated fails for any other tag: the three backticks go, the tag stays in the
  output in front of the interior.
\<close>

theorem clean_fenced_python_counterexample:
  "clean_latex_output (Some ''```python\<newline>x\<newline>```'') = Some ''python\<newline>x'' \<and>
   clean_latex_output (Some ''```python\<newline>x\<newline>```'') \<noteq> Some ''x''"
  by (simp add: clean_eval)

theorem clean_twice_witness:
  "clean_latex_output (clean_latex_output (Some ''```latex\<newline>x\<newline>```'')) = Some ''x''"
proof -
  have "clean_latex_output (Some ''```latex\<newline>x\<newline>```'') = Some ''x''"
    by (simp add: clean_eval)
  then show ?thesis
    using clean_twice [of "''```latex\<newline>x\<newline>```''"] by simp
qed

text \<open>
  C5 as stated fails on a non-empty input that is sanitized to the empty string: the
  first application returns the empty string, the second \<open>None\<close>.
\<close>

theorem clean_twice_blank_counterexample:
  "clean_latex_output (Some '' '') = Some [] \<and>
   clean_latex_output (clean_latex_output (Some '' '')) = None \<and>
   clean_latex_output (clean_latex_output (Some '' '')) \<noteq> clean_latex_output (Some '' '')"
  by (simp add: clean_eval)


section \<open>Properties of discovery\<close>

lemma rfind_dot_append:
  assumes "CHR ''.'' \<notin> set ext"
  shows "rfind_dot (p @ CHR ''.'' # ext) = Some (length p)"
proof -
  have "takeWhile (\<lambda>c. c \<noteq> CHR ''.'') (rev ext @ CHR ''.'' # rev p) = rev ext"
    using assms by (simp add: takeWhile_append)
  then show ?thesis
    by (simp add: rfind_dot_def)
qed

lemma path_suffix_append:
  assumes "CHR ''.'' \<notin> set ext" and "ext \<noteq> []"
  shows "path_suffix (p @ CHR ''.'' # ext) = (if p = [] then [] else CHR ''.'' # ext)"
  using assms by (simp add: path_suffix_def rfind_dot_append)

lemma path_stem_append:
  assumes "CHR ''.'' \<notin> set ext" and "ext \<noteq> []"
  shows "path_stem (p @ CHR ''.'' # ext) = (if p = [] then CHR ''.'' # ext else p)"
  using assms by (simp add: path_stem_def rfind_dot_append)

lemma path_suffix_is_suffix: "suffix (path_suffix name) name"
  by (auto simp: path_suffix_def suffix_drop split: option.splits)

lemma format_shape:
  assumes "sfx \<in> set supported_formats"
  shows "\<exists>ext. sfx = CHR ''.'' # ext \<and> CHR ''.'' \<notin> set ext \<and> ext \<noteq> []"
  using assms by (auto simp: supported_formats_def)

lemma glob_matches_format:
  assumes "sfx \<in> set supported_formats"
  shows "suffix sfx name \<longleftrightarrow> path_suffix name = sfx \<or> name = sfx"
proof
  assume "suffix sfx name"
  then obtain p where p: "name = p @ sfx" by (auto simp: suffix_def)
  from format_shape [OF assms] obtain ext
    where e: "sfx = CHR ''.'' # ext" "CHR ''.'' \<notin> set ext" "ext \<noteq> []" by blast
  show "path_suffix name = sfx \<or> name = sfx"
    using path_suffix_append [OF e(2,3), of p] p e(1) by (cases "p = []") auto
next
  assume "path_suffix name = sfx \<or> name = sfx"
  then show "suffix sfx name"
    using path_suffix_is_suffix [of name] by auto
qed

text \<open>
  What the five globs select: the entries whose extension (\<^verbatim>\<open>Path.suffix\<close>) is,
  letter for letter, one of \<^verbatim>\<open>supported_formats\<close>, and the entries named like one of
  these five (such a name starts with a dot and is skipped by the loop).
\<close>

lemma in_image_files:
  "name \<in> set (image_files entries) \<longleftrightarrow>
     name \<in> set entries \<and>
     (path_suffix name \<in> set supported_formats \<or> name \<in> set supported_formats)"
proof -
  have "name \<in> set (image_files entries) \<longleftrightarrow>
          name \<in> set entries \<and> (\<exists>sfx \<in> set supported_formats. suffix sfx name)"
    by (auto simp: image_files_def glob_star_def)
  also have "(\<exists>sfx \<in> set supported_formats. suffix sfx name) \<longleftrightarrow>
          (path_suffix name \<in> set supported_formats \<or> name \<in> set supported_formats)"
    by (auto simp: glob_matches_format)
  finally show ?thesis .
qed

lemma one_format:
  assumes "a \<in> set supported_formats" "b \<in> set supported_formats"
    and "suffix a name" "suffix b name"
  shows "a = b"
proof -
  from assms(3,4) have "suffix a b \<or> suffix b a"
    by (rule suffix_same_cases [THEN disjE]) auto
  with assms(1,2) show ?thesis
    by (auto simp: supported_formats_def suffix_to_prefix)
qed

lemma distinct_concat_filters:
  assumes "distinct xs" and "distinct ss"
    and "\<And>a b x. a \<in> set ss \<Longrightarrow> b \<in> set ss \<Longrightarrow> P a x \<Longrightarrow> P b x \<Longrightarrow> a = b"
  shows "distinct (concat (map (\<lambda>s. filter (P s) xs) ss))"
  using assms(2,3)
proof (induction ss)
  case Nil
  show ?case by simp
next
  case (Cons s ss)
  have "distinct (concat (map (\<lambda>s. filter (P s) xs) ss))"
    using Cons by simp
  moreover have "distinct (filter (P s) xs)"
    using assms(1) by simp
  moreover have "\<not> (P s x \<and> P t x)" if "t \<in> set ss" for t x
    using Cons.prems(1) Cons.prems(2) [of s t x] that by auto
  ultimately show ?case by auto
qed

lemma distinct_image_files:
  assumes "distinct entries"
  shows "distinct (image_files entries)"
proof -
  have "distinct supported_formats"
    by (simp add: supported_formats_def)
  from distinct_concat_filters [OF assms this, of "\<lambda>sfx name. suffix sfx name"] one_format
  show ?thesis
    unfolding image_files_def glob_star_def by blast
qed

text \<open>
  The order in which the set \<^verbatim>\<open>supported_formats\<close> is iterated does not matter:
  the sorted list, its length and its emptiness are the same for every order.
\<close>

lemma mset_concat_map:
  "mset (concat (map g xs)) = sum_mset (image_mset (\<lambda>x. mset (g x)) (mset xs))"
  by (induction xs) simp_all

lemma image_files_any_order:
  assumes "mset fs = mset supported_formats"
  shows "sort (concat (map (glob_star entries) fs)) = sort (image_files entries) \<and>
         length (concat (map (glob_star entries) fs)) = length (image_files entries) \<and>
         (concat (map (glob_star entries) fs) = [] \<longleftrightarrow> image_files entries = [])"
proof -
  have m: "mset (concat (map (glob_star entries) fs)) = mset (image_files entries)"
    unfolding image_files_def mset_concat_map assms ..
  then have "mset (sort (image_files entries)) = mset (concat (map (glob_star entries) fs))"
    by simp
  then have 1: "sort (concat (map (glob_star entries) fs)) = sort (image_files entries)"
    by (rule properties_for_sort) simp
  from m have 2: "length (concat (map (glob_star entries) fs)) = length (image_files entries)"
    by (rule mset_eq_length)
  from 2 have 3: "concat (map (glob_star entries) fs) = [] \<longleftrightarrow> image_files entries = []"
    by (metis length_0_conv)
  from 1 2 3 show ?thesis by blast
qed

lemma hidden_bare_format:
  "name \<in> set supported_formats \<Longrightarrow> startswith_dot name"
  by (auto simp: supported_formats_def startswith_dot_def)

lemma sorted_visible:
  assumes "distinct entries"
  shows "filter (\<lambda>n. \<not> startswith_dot n) (sort (image_files entries)) =
         sort (filter (\<lambda>n. path_suffix n \<in> set supported_formats \<and> \<not> startswith_dot n) entries)"
    (is "?l = sort ?r")
proof -
  have l: "?l = sort (filter (\<lambda>n. \<not> startswith_dot n) (image_files entries))"
    by (simp add: filter_sort)
  have s: "set (filter (\<lambda>n. \<not> startswith_dot n) (image_files entries)) = set ?r"
    by (auto simp: in_image_files dest: hidden_bare_format)
  have d1: "distinct (filter (\<lambda>n. \<not> startswith_dot n) (image_files entries))"
    using distinct_image_files [OF assms] by simp
  have d2: "distinct ?r" using assms by simp
  from set_eq_iff_mset_eq_distinct [OF d1 d2] s
  have "mset (filter (\<lambda>n. \<not> startswith_dot n) (image_files entries)) = mset ?r"
    by blast
  then have "mset (sort ?r) = mset (filter (\<lambda>n. \<not> startswith_dot n) (image_files entries))"
    by simp
  then have "sort (filter (\<lambda>n. \<not> startswith_dot n) (image_files entries)) = sort ?r"
    by (rule properties_for_sort) simp
  with l show ?thesis by simp
qed


section \<open>Concrete runs of discovery and of the batch\<close>

lemmas run_eval =
  process_all_images_def image_files_def glob_star_def supported_formats_def suffix_to_prefix
  process_single_image_def analyze_algorithm_image_def encode_image_to_base64_def
  save_latex_code_def emit_def get_image_mime_type_def mime_types_def path_suffix_def
  path_stem_def rfind_dot_def lower_def lower_char_def char_of_def bit_Suc_0_iff
  startswith_dot_def print_summary_def
  env_of_def fenced_service_def world0_def main_def init_converter_def Let_def

text \<open>
  C3. The directory holds \<^verbatim>\<open>x.PNG\<close>. Compared without regard to case, its extension
  is a listed one, and \<^verbatim>\<open>get_image_mime_type\<close>, which lowers the extension, gives it
  the MIME type of \<^verbatim>\<open>.png\<close>; discovery, which does not lower it, does not select the
  file, and the run reports that there is no supported image.
\<close>

theorem upper_case_extension_not_discovered:
  "lower (path_suffix ''x.PNG'') \<in> set supported_formats \<and>
   get_image_mime_type ''x.PNG'' = ''image/png'' \<and>
   ''x.PNG'' \<notin> set (image_files [''x.PNG'']) \<and>
   process_all_images (env_of (Some [''x.PNG'']) [''x.PNG'' \<mapsto> ''P''] fenced_service) world0 =
     (Inr (), \<lparr>codes = Map.empty, trace = [Print No_supported_images]\<rparr>)"
  by (simp add: run_eval)

text \<open>
  C1. The directory holds \<^verbatim>\<open>a.png\<close>, which cannot be read, and \<^verbatim>\<open>b.png\<close>. The
  exception raised by reading \<^verbatim>\<open>a.png\<close> leaves \<^verbatim>\<open>process_all_images\<close>: the run ends
  there, without a summary.
\<close>

theorem read_failure_ends_batch:
  "process_all_images (env_of (Some [''b.png'', ''a.png'']) [''b.png'' \<mapsto> ''B''] fenced_service) world0 =
     (Inl (OSError ''a.png''),
      \<lparr>codes = Map.empty,
       trace = [Print (Found_images 2), Print (Rule 50), Print (Processing ''a.png''),
                Open_read ''a.png'']\<rparr>)"
  by (simp add: run_eval)

text \<open>
  C6. In the same run \<^verbatim>\<open>b.png\<close>, a readable image with a recognized extension and no
  leading dot, is never processed.
\<close>

theorem readable_image_left_out:
  "path_suffix ''b.png'' \<in> set supported_formats \<and> \<not> startswith_dot ''b.png'' \<and>
   image_bytes (env_of (Some [''b.png'', ''a.png'']) [''b.png'' \<mapsto> ''B''] fenced_service) ''b.png'' = Some ''B'' \<and>
   processed (trace (snd (process_all_images
      (env_of (Some [''b.png'', ''a.png'']) [''b.png'' \<mapsto> ''B''] fenced_service) world0))) = [''a.png'']"
  by (simp add: run_eval)


section \<open>Properties of the batch\<close>

lemma processed_append: "processed (xs @ ys) = processed xs @ processed ys"
  by (induction xs rule: processed.induct) simp_all

lemma writes_append: "writes (xs @ ys) = writes xs @ writes ys"
  by (induction xs rule: writes.induct) simp_all

lemma reads_and_requests_append:
  "reads_and_requests (xs @ ys) = reads_and_requests xs @ reads_and_requests ys"
  by (induction xs rule: reads_and_requests.induct) simp_all

lemma trace_emit [simp]: "trace (emit ev w) = trace w @ [ev]"
  by (simp add: emit_def)

lemma codes_emit [simp]: "codes (emit ev w) = codes w"
  by (simp add: emit_def)

lemma encode_trace:
  "encode_image_to_base64 e p w = (r, w') \<Longrightarrow> trace w' = trace w @ [Open_read p] \<and> codes w' = codes w"
  by (auto simp: encode_image_to_base64_def split: option.splits)

lemma analyze_processed:
  assumes "analyze_algorithm_image e p w = (r, w')"
  shows "processed (trace w') = processed (trace w)"
proof (cases "encode_image_to_base64 e p w")
  case (Pair r1 w1)
  from encode_trace [OF Pair] have t: "trace w1 = trace w @ [Open_read p]" by simp
  show ?thesis
    using assms Pair t
    by (cases r1; cases "completion e p (get_image_mime_type p) (projr r1)")
       (auto simp: analyze_algorithm_image_def Let_def processed_append)
qed

lemma save_processed:
  "save_latex_code e c out w = (ok, w') \<Longrightarrow> processed (trace w') = processed (trace w)"
  by (auto simp: save_latex_code_def processed_append split: if_splits option.splits)

lemma process_single_image_processed:
  assumes "process_single_image e p w = (r, w')"
  shows "processed (trace w') = processed (trace w) @ [p]"
proof (cases "analyze_algorithm_image e p (emit (Print (Processing p)) w)")
  case (Pair r1 w1)
  from analyze_processed [OF Pair]
  have t: "processed (trace w1) = processed (trace w) @ [p]"
    by (simp add: processed_append)
  show ?thesis
  proof (cases r1)
    case (Inl x)
    with assms Pair t show ?thesis by (simp add: process_single_image_def)
  next
    case (Inr latex_code)
    show ?thesis
    proof (cases "falsy latex_code \<or> falsy (clean_latex_output latex_code)")
      case True
      with assms Pair Inr t show ?thesis
        by (auto simp: process_single_image_def Let_def processed_append split: if_splits)
    next
      case False
      obtain ok w2 where s: "save_latex_code e (the (clean_latex_output latex_code))
          (path_stem p @ ''.tex'') w1 = (ok, w2)"
        by (cases "save_latex_code e (the (clean_latex_output latex_code)) (path_stem p @ ''.tex'') w1")
      from save_processed [OF s] t have "processed (trace w2) = processed (trace w) @ [p]"
        by simp
      with assms Pair Inr False s show ?thesis
        by (simp add: process_single_image_def Let_def)
    qed
  qed
qed

lemma process_loop_completed:
  assumes "process_loop e ps s f w = (Inr (s', f'), w')"
  shows "s' + f' = s + f + length (filter (\<lambda>n. \<not> startswith_dot n) ps) \<and>
         processed (trace w') = processed (trace w) @ filter (\<lambda>n. \<not> startswith_dot n) ps"
  using assms
proof (induction ps arbitrary: s f w)
  case Nil
  then show ?case by simp
next
  case (Cons p ps)
  show ?case
  proof (cases "startswith_dot p")
    case True
    with Cons show ?thesis by simp
  next
    case False
    obtain r w1 where r: "process_single_image e p w = (r, w1)"
      by (cases "process_single_image e p w")
    from process_single_image_processed [OF r]
    have t: "processed (trace w1) = processed (trace w) @ [p]" .
    show ?thesis
    proof (cases r)
      case (Inl x)
      with Cons.prems False r show ?thesis by simp
    next
      case (Inr ok)
      show ?thesis
      proof (cases ok)
        case True
        with Cons.prems False r Inr
        have "process_loop e ps (s + 1) f w1 = (Inr (s', f'), w')" by simp
        from Cons.IH [OF this] t False show ?thesis by simp
      next
        case no: False
        with Cons.prems False r Inr
        have "process_loop e ps s (f + 1) w1 = (Inr (s', f'), w')" by simp
        from Cons.IH [OF this] t False show ?thesis by simp
      qed
    qed
  qed
qed

lemma length_filter_sort:
  "length (filter P (sort xs)) = length (filter P (xs :: string list))"
proof -
  have "mset (filter P (sort xs)) = mset (filter P xs)"
    by (simp only: mset_filter mset_sort)
  then show ?thesis by (rule mset_eq_length)
qed

lemma run_completed:
  assumes "images e = Some entries" and "image_files entries \<noteq> []"
    and "process_all_images e w = (Inr (), w')"
  shows "\<exists>successful failed w2.
           process_loop e (sort (image_files entries)) 0 0
             (emit (Print (Rule 50)) (emit (Print (Found_images (length (image_files entries)))) w))
             = (Inr (successful, failed), w2) \<and>
           w' = print_summary successful failed w2"
proof -
  let ?w1 = "emit (Print (Rule 50)) (emit (Print (Found_images (length (image_files entries)))) w)"
  obtain r w2 where l: "process_loop e (sort (image_files entries)) 0 0 ?w1 = (r, w2)"
    by (cases "process_loop e (sort (image_files entries)) 0 0 ?w1")
  from assms l obtain successful failed where "r = Inr (successful, failed)"
    and "w' = print_summary successful failed w2"
    by (cases r) (auto simp: process_all_images_def Let_def)
  with l show ?thesis by blast
qed

text \<open>
  C10. When \<^verbatim>\<open>process_all_images\<close> finds images and returns without an exception,
  the two counters it prints add up to the number of discovered images whose name does
  not begin with a dot.
\<close>

theorem counters_sum:
  assumes "images e = Some entries" and "image_files entries \<noteq> []"
    and "process_all_images e w = (Inr (), w')"
  shows "\<exists>successful failed w2.
           process_loop e (sort (image_files entries)) 0 0
             (emit (Print (Rule 50)) (emit (Print (Found_images (length (image_files entries)))) w))
             = (Inr (successful, failed), w2) \<and>
           w' = print_summary successful failed w2 \<and>
           successful + failed =
             length (filter (\<lambda>name. \<not> startswith_dot name) (image_files entries))"
proof -
  from run_completed [OF assms] obtain successful failed w2
    where l: "process_loop e (sort (image_files entries)) 0 0
             (emit (Print (Rule 50)) (emit (Print (Found_images (length (image_files entries)))) w))
             = (Inr (successful, failed), w2)"
      and w': "w' = print_summary successful failed w2"
    by blast
  from process_loop_completed [OF l]
  have "successful + failed = length (filter (\<lambda>name. \<not> startswith_dot name) (image_files entries))"
    by (simp add: length_filter_sort)
  with l w' show ?thesis by blast
qed

lemma processed_print_summary:
  "processed (trace (print_summary s f w)) = processed (trace w)"
  by (simp add: print_summary_def processed_append)

lemma processed_when_completed:
  assumes "images e = Some entries" and "distinct entries"
    and "process_all_images e w = (Inr (), w')"
  shows "processed (trace w') = processed (trace w) @
           sort (filter (\<lambda>n. path_suffix n \<in> set supported_formats \<and> \<not> startswith_dot n) entries)"
proof (cases "image_files entries = []")
  case True
  then have "filter (\<lambda>n. \<not> startswith_dot n) (sort (image_files entries)) = []"
    by simp
  with sorted_visible [OF assms(2)]
  have "sort (filter (\<lambda>n. path_suffix n \<in> set supported_formats \<and> \<not> startswith_dot n) entries) = []"
    by simp
  moreover have "w' = emit (Print No_supported_images) w"
    using assms True by (simp add: process_all_images_def)
  ultimately show ?thesis by (simp add: processed_append)
next
  case False
  from run_completed [OF assms(1) False assms(3)] obtain successful failed w2
    where l: "process_loop e (sort (image_files entries)) 0 0
             (emit (Print (Rule 50)) (emit (Print (Found_images (length (image_files entries)))) w))
             = (Inr (successful, failed), w2)"
      and w': "w' = print_summary successful failed w2"
    by blast
  from process_loop_completed [OF l]
  have "processed (trace w2) = processed (trace w) @
          filter (\<lambda>n. \<not> startswith_dot n) (sort (image_files entries))"
    by (simp add: processed_append)
  with w' sorted_visible [OF assms(2)] show ?thesis
    by (simp add: processed_print_summary)
qed


theorem counters_sum_witness:
  "\<exists>successful failed w2.
     snd (process_all_images
       (env_of (Some [''a.png'', ''.b.png'', ''c.txt'']) [''a.png'' \<mapsto> ''A''] fenced_service) world0)
       = print_summary successful failed w2 \<and>
     successful + failed = 1"
proof -
  let ?e = "env_of (Some [''a.png'', ''.b.png'', ''c.txt'']) [''a.png'' \<mapsto> ''A''] fenced_service"
  have 1: "images ?e = Some [''a.png'', ''.b.png'', ''c.txt'']"
    by (simp add: env_of_def)
  have f: "image_files [''a.png'', ''.b.png'', ''c.txt''] = [''a.png'', ''.b.png'']"
    by (simp add: image_files_def glob_star_def supported_formats_def suffix_to_prefix)
  then have 2: "image_files [''a.png'', ''.b.png'', ''c.txt''] \<noteq> []"
    by simp
  have "fst (process_all_images ?e world0) = Inr ()"
    by (simp add: run_eval clean_eval)
  then have 3: "process_all_images ?e world0 = (Inr (), snd (process_all_images ?e world0))"
    by (simp add: prod_eq_iff)
  have "length (filter (\<lambda>name. \<not> startswith_dot name) [''a.png'', ''.b.png'']) = 1"
    by (simp add: startswith_dot_def)
  with counters_sum [OF 1 2 3] f show ?thesis
    by auto
qed

lemma clean_nonempty: "clean_latex_output (Some s) = Some c \<Longrightarrow> s \<noteq> []"
  by (auto simp: clean_latex_output_def falsy_def)

lemma process_single_image_saved:
  assumes "image_bytes e p = Some b"
    and "completion e p (get_image_mime_type p) (b64encode e b) = Some r"
    and "clean_latex_output (Some (strip r)) = Some c" and "c \<noteq> []"
    and "write_ok e (path_stem p @ ''.tex'') c"
  shows "process_single_image e p w =
           (Inr True,
            w\<lparr>codes := (codes w)(path_stem p @ ''.tex'' \<mapsto> c),
              trace := trace w @
                [Print (Processing p), Open_read p,
                 Request (get_image_mime_type p) (b64encode e b),
                 Write (path_stem p @ ''.tex'') c, Print (Saved (path_stem p @ ''.tex''))]\<rparr>)"
proof -
  from clean_nonempty [OF assms(3)] have "strip r \<noteq> []" .
  with assms show ?thesis
    by (simp add: process_single_image_def analyze_algorithm_image_def
        encode_image_to_base64_def save_latex_code_def emit_def falsy_def Let_def)
qed

lemma process_single_image_no_content:
  assumes "image_bytes e p = Some b"
    and "falsy (clean_latex_output
           (map_option strip (completion e p (get_image_mime_type p) (b64encode e b))))"
  shows "\<exists>w'. process_single_image e p w = (Inr False, w') \<and> codes w' = codes w \<and>
              writes (trace w') = writes (trace w)"
proof (cases "completion e p (get_image_mime_type p) (b64encode e b)")
  case None
  with assms show ?thesis
    by (simp add: process_single_image_def analyze_algorithm_image_def
        encode_image_to_base64_def emit_def falsy_def Let_def writes_append)
next
  case (Some r)
  with assms(2) have c: "falsy (clean_latex_output (Some (strip r)))" by simp
  show ?thesis
  proof (cases "strip r = []")
    case True
    then have "falsy (Some (strip r))" by (simp add: falsy_def)
    with assms(1) Some show ?thesis
      by (simp add: process_single_image_def analyze_algorithm_image_def
          encode_image_to_base64_def emit_def Let_def writes_append)
  next
    case False
    then have "\<not> falsy (Some (strip r))" by (simp add: falsy_def)
    with assms(1) Some c show ?thesis
      by (simp add: process_single_image_def analyze_algorithm_image_def
          encode_image_to_base64_def emit_def Let_def writes_append)
  qed
qed


text \<open>
  C7. An image that was read, and whose inference response is absent, or empty once
  stripped, or empty once sanitized, makes \<^verbatim>\<open>process_single_image\<close> return
  \<^verbatim>\<open>False\<close> without a write and without a change to \<^verbatim>\<open>codes/\<close>; the loop then
  goes on with the failure counter raised by one.
\<close>

theorem no_content_is_a_failure:
  assumes "image_bytes e image_path = Some bytes"
    and "response = completion e image_path (get_image_mime_type image_path) (b64encode e bytes)"
    and "response = None \<or>
         (\<exists>content. response = Some content \<and>
            (strip content = [] \<or> clean_latex_output (Some (strip content)) = Some []))"
    and "\<not> startswith_dot image_path"
  shows "\<exists>w'. process_single_image e image_path w = (Inr False, w') \<and>
              codes w' = codes w \<and> writes (trace w') = writes (trace w) \<and>
              process_loop e (image_path # rest) successful failed w =
                process_loop e rest successful (failed + 1) w'"
proof -
  from assms(3) have "falsy (clean_latex_output (map_option strip response))"
    by (auto simp: falsy_def clean_latex_output_def)
  with assms(2) have "falsy (clean_latex_output (map_option strip
      (completion e image_path (get_image_mime_type image_path) (b64encode e bytes))))"
    by simp
  from process_single_image_no_content [OF assms(1) this, of w] obtain w'
    where p: "process_single_image e image_path w = (Inr False, w')"
      and c: "codes w' = codes w" "writes (trace w') = writes (trace w)"
    by blast
  from p assms(4) have "process_loop e (image_path # rest) successful failed w =
      process_loop e rest successful (failed + 1) w'"
    by simp
  with p c show ?thesis by blast
qed

theorem no_content_is_a_failure_witness:
  "\<exists>w'. process_single_image
           (env_of (Some [''a.png'']) [''a.png'' \<mapsto> ''A''] (\<lambda>path mime payload. Some ''```''))
           ''a.png'' world0 = (Inr False, w') \<and>
        codes w' = Map.empty \<and> writes (trace w') = [] \<and>
        process_loop
           (env_of (Some [''a.png'']) [''a.png'' \<mapsto> ''A''] (\<lambda>path mime payload. Some ''```''))
           [''a.png''] 0 0 world0 = (Inr (0, 1), w')"
proof -
  let ?e = "env_of (Some [''a.png'']) [''a.png'' \<mapsto> ''A''] (\<lambda>path mime payload. Some ''```'')"
  have 1: "image_bytes ?e ''a.png'' = Some ''A''"
    by (simp add: env_of_def)
  have 2: "Some ''```'' = completion ?e ''a.png'' (get_image_mime_type ''a.png'') (b64encode ?e ''A'')"
    by (simp add: env_of_def)
  have "strip ''```'' = ''```''"
    by (simp add: strip_def isspace_def)
  moreover have "clean_latex_output (Some ''```'') = Some []"
    by (simp add: clean_eval)
  ultimately have 3: "Some ''```'' = None \<or>
         (\<exists>content. Some ''```'' = Some content \<and>
            (strip content = [] \<or> clean_latex_output (Some (strip content)) = Some []))"
    by simp
  have 4: "\<not> startswith_dot ''a.png''"
    by (simp add: startswith_dot_def)
  from no_content_is_a_failure [OF 1 2 3 4, of world0 "[]" 0 0] show ?thesis
    by (simp add: world0_def)
qed

text \<open>
  C8. With \<^verbatim>\<open>OPENAI_API_KEY\<close> unset, \<^verbatim>\<open>main\<close> prints the banner and the two
  lines that report the missing key, and returns: no image is opened, no request is
  sent, nothing is processed or written.
\<close>

theorem missing_key_halts:
  assumes "api_key e = None"
  shows "main e w =
           (Inr (), w\<lparr>trace := trace w @
              [Print Banner, Print (Rule 40), Print Key_missing, Print Key_export_hint]\<rparr>) \<and>
         reads_and_requests (trace (snd (main e w))) = reads_and_requests (trace w) \<and>
         processed (trace (snd (main e w))) = processed (trace w)"
  using assms
  by (simp add: main_def falsy_def emit_def Let_def reads_and_requests_append processed_append)

theorem missing_key_halts_witness:
  "main ((env_of (Some [''a.png'']) [''a.png'' \<mapsto> ''A''] fenced_service)\<lparr>api_key := None\<rparr>) world0 =
     (Inr (), \<lparr>codes = Map.empty,
       trace = [Print Banner, Print (Rule 40), Print Key_missing, Print Key_export_hint]\<rparr>)"
proof -
  let ?e = "(env_of (Some [''a.png'']) [''a.png'' \<mapsto> ''A''] fenced_service)\<lparr>api_key := None\<rparr>"
  have "api_key ?e = None" by simp
  from missing_key_halts [OF this, of world0] show ?thesis
    by (simp add: world0_def)
qed

text \<open>
  C9. Without the directory \<^verbatim>\<open>images/\<close>, \<^verbatim>\<open>process_all_images\<close> prints that
  the directory was not found and returns normally, with nothing else done; with the
  directory there and no matching file it prints another line; the two outcomes differ.
\<close>

theorem missing_directory_reported:
  assumes "images e = None" and "images e' = Some entries" and "image_files entries = []"
  shows "process_all_images e w = (Inr (), emit (Print Dir_not_found) w) \<and>
         process_all_images e' w = (Inr (), emit (Print No_supported_images) w) \<and>
         process_all_images e w \<noteq> process_all_images e' w"
proof -
  have 1: "process_all_images e w = (Inr (), emit (Print Dir_not_found) w)"
    using assms(1) by (simp add: process_all_images_def)
  have 2: "process_all_images e' w = (Inr (), emit (Print No_supported_images) w)"
    using assms(2,3) by (simp add: process_all_images_def)
  have "trace (emit (Print Dir_not_found) w) \<noteq> trace (emit (Print No_supported_images) w)"
    by simp
  then have "emit (Print Dir_not_found) w \<noteq> emit (Print No_supported_images) w"
    by metis
  with 1 2 show ?thesis by simp
qed

theorem missing_directory_reported_witness:
  "process_all_images (env_of None Map.empty fenced_service) world0 =
     (Inr (), \<lparr>codes = Map.empty, trace = [Print Dir_not_found]\<rparr>) \<and>
   process_all_images (env_of (Some [''notes.txt'']) Map.empty fenced_service) world0 =
     (Inr (), \<lparr>codes = Map.empty, trace = [Print No_supported_images]\<rparr>)"
proof -
  have 1: "images (env_of None Map.empty fenced_service) = None"
    by (simp add: env_of_def)
  have 2: "images (env_of (Some [''notes.txt'']) Map.empty fenced_service) = Some [''notes.txt'']"
    by (simp add: env_of_def)
  have 3: "image_files [''notes.txt''] = []"
    by (simp add: image_files_def glob_star_def supported_formats_def suffix_to_prefix)
  from missing_directory_reported [OF 1 2 3, of world0] show ?thesis
    by (simp add: world0_def emit_def)
qed


section \<open>The run over two images with one base name\<close>

lemma two_of_three: "S \<subseteq> {a, b, c} \<Longrightarrow> a \<in> S \<Longrightarrow> b \<in> S \<Longrightarrow> c \<notin> S \<Longrightarrow> S = {b, a}"
  by blast

lemma alg1_discovered:
  assumes "distinct entries" and "set entries = {''alg1.png'', ''alg1.jpg'', ''notes.txt''}"
  shows "sort (image_files entries) = [''alg1.jpg'', ''alg1.png'']"
proof -
  have f: "''.png'' \<in> set supported_formats" "''.jpg'' \<in> set supported_formats"
    "''.txt'' \<notin> set supported_formats" "''notes.txt'' \<notin> set supported_formats"
    by (simp_all add: supported_formats_def)
  have p: "path_suffix ''alg1.png'' = ''.png''" "path_suffix ''alg1.jpg'' = ''.jpg''"
    "path_suffix ''notes.txt'' = ''.txt''"
    by (simp_all add: path_suffix_def rfind_dot_def)
  have 1: "''alg1.png'' \<in> set (image_files entries)"
    by (simp add: in_image_files assms(2) p f)
  have 2: "''alg1.jpg'' \<in> set (image_files entries)"
    by (simp add: in_image_files assms(2) p f)
  have 3: "''notes.txt'' \<notin> set (image_files entries)"
    by (simp add: in_image_files p f)
  have "set (image_files entries) \<subseteq> set entries"
    using in_image_files by blast
  then have "set (image_files entries) \<subseteq> {''alg1.png'', ''alg1.jpg'', ''notes.txt''}"
    by (simp only: assms(2))
  from two_of_three [OF this 1 2 3]
  have s: "set (image_files entries) = set [''alg1.jpg'', ''alg1.png'']"
    by simp
  have d: "distinct [''alg1.jpg'', ''alg1.png'']" by simp
  from set_eq_iff_mset_eq_distinct [OF distinct_image_files [OF assms(1)] d] s
  have "mset [''alg1.jpg'', ''alg1.png''] = mset (image_files entries)"
    by simp
  then show ?thesis
    by (rule properties_for_sort) simp
qed

text \<open>
  C4. The directory holds \<^verbatim>\<open>alg1.png\<close>, \<^verbatim>\<open>alg1.jpg\<close> and \<^verbatim>\<open>notes.txt\<close>, in
  any listing order; both images are read, answered with a text that is not empty once
  sanitized, and written. Then the images are processed in the order
  \<^verbatim>\<open>alg1.jpg\<close>, \<^verbatim>\<open>alg1.png\<close>, both are written to \<^verbatim>\<open>alg1.tex\<close>, and in the
  end \<^verbatim>\<open>codes/\<close>, empty before, holds this one file with the result of the second
  image.
\<close>

theorem same_stem_overwrites:
  assumes "images e = Some entries" and "distinct entries"
    and "set entries = {''alg1.png'', ''alg1.jpg'', ''notes.txt''}"
    and "image_bytes e ''alg1.jpg'' = Some bytes_jpg"
    and "image_bytes e ''alg1.png'' = Some bytes_png"
    and "completion e ''alg1.jpg'' ''image/jpeg'' (b64encode e bytes_jpg) = Some response_jpg"
    and "completion e ''alg1.png'' ''image/png'' (b64encode e bytes_png) = Some response_png"
    and "clean_latex_output (Some (strip response_jpg)) = Some code_jpg" and "code_jpg \<noteq> []"
    and "clean_latex_output (Some (strip response_png)) = Some code_png" and "code_png \<noteq> []"
    and "write_ok e ''alg1.tex'' code_jpg" and "write_ok e ''alg1.tex'' code_png"
    and "codes w = Map.empty"
  shows "sort (image_files entries) = [''alg1.jpg'', ''alg1.png''] \<and>
         (\<exists>w'. process_all_images e w = (Inr (), w') \<and>
               writes (trace w') = writes (trace w) @
                 [(''alg1.tex'', code_jpg), (''alg1.tex'', code_png)] \<and>
               codes w' = [''alg1.tex'' \<mapsto> code_png])"
proof -
  have srt: "sort (image_files entries) = [''alg1.jpg'', ''alg1.png'']"
    using assms(2,3) by (rule alg1_discovered)
  then have ne: "image_files entries \<noteq> []" by auto
  have m: "get_image_mime_type ''alg1.jpg'' = ''image/jpeg''"
    "get_image_mime_type ''alg1.png'' = ''image/png''"
    by (simp_all add: get_image_mime_type_def mime_types_def path_suffix_def rfind_dot_def
        lower_def lower_char_def)
  have st: "path_stem ''alg1.jpg'' = ''alg1''" "path_stem ''alg1.png'' = ''alg1''"
    by (simp_all add: path_stem_def rfind_dot_def)
  have h: "\<not> startswith_dot ''alg1.jpg''" "\<not> startswith_dot ''alg1.png''"
    by (simp_all add: startswith_dot_def)
  have j: "process_single_image e ''alg1.jpg'' v =
      (Inr True,
       v\<lparr>codes := (codes v)(''alg1.tex'' \<mapsto> code_jpg),
         trace := trace v @
           [Print (Processing ''alg1.jpg''), Open_read ''alg1.jpg'',
            Request ''image/jpeg'' (b64encode e bytes_jpg),
            Write ''alg1.tex'' code_jpg, Print (Saved ''alg1.tex'')]\<rparr>)" for v
    using process_single_image_saved [of e "''alg1.jpg''" bytes_jpg response_jpg code_jpg v]
      assms(4,6,8,9,12) by (simp add: m st)
  have p: "process_single_image e ''alg1.png'' v =
      (Inr True,
       v\<lparr>codes := (codes v)(''alg1.tex'' \<mapsto> code_png),
         trace := trace v @
           [Print (Processing ''alg1.png''), Open_read ''alg1.png'',
            Request ''image/png'' (b64encode e bytes_png),
            Write ''alg1.tex'' code_png, Print (Saved ''alg1.tex'')]\<rparr>)" for v
    using process_single_image_saved [of e "''alg1.png''" bytes_png response_png code_png v]
      assms(5,7,10,11,13) by (simp add: m st)
  show ?thesis
    using srt ne assms(1,14)
    by (simp add: process_all_images_def Let_def h j p print_summary_def emit_def writes_append)
qed

theorem same_stem_overwrites_witness:
  "sort (image_files [''alg1.png'', ''alg1.jpg'', ''notes.txt'']) = [''alg1.jpg'', ''alg1.png''] \<and>
   (\<exists>w'. process_all_images
       (env_of (Some [''alg1.png'', ''alg1.jpg'', ''notes.txt''])
          [''alg1.png'' \<mapsto> ''P'', ''alg1.jpg'' \<mapsto> ''J''] fenced_service) world0 = (Inr (), w') \<and>
      writes (trace w') = [(''alg1.tex'', ''image/jpeg''), (''alg1.tex'', ''image/png'')] \<and>
      codes w' = [''alg1.tex'' \<mapsto> ''image/png''])"
proof -
  let ?l = "[''alg1.png'', ''alg1.jpg'', ''notes.txt'']"
  let ?e = "env_of (Some ?l) [''alg1.png'' \<mapsto> ''P'', ''alg1.jpg'' \<mapsto> ''J''] fenced_service"
  have 1: "images ?e = Some ?l" by (simp add: env_of_def)
  have 2: "distinct ?l" by simp
  have 3: "set ?l = {''alg1.png'', ''alg1.jpg'', ''notes.txt''}" by simp
  have 4: "image_bytes ?e ''alg1.jpg'' = Some ''J''" by (simp add: env_of_def)
  have 5: "image_bytes ?e ''alg1.png'' = Some ''P''" by (simp add: env_of_def)
  have 6: "completion ?e ''alg1.jpg'' ''image/jpeg'' (b64encode ?e ''J'') =
      Some ''```latex\<newline>image/jpeg\<newline>```''"
    by (simp add: env_of_def fenced_service_def backticks_def)
  have 7: "completion ?e ''alg1.png'' ''image/png'' (b64encode ?e ''P'') =
      Some ''```latex\<newline>image/png\<newline>```''"
    by (simp add: env_of_def fenced_service_def backticks_def)
  have 8: "clean_latex_output (Some (strip ''```latex\<newline>image/jpeg\<newline>```'')) = Some ''image/jpeg''"
    by (simp add: clean_eval)
  have 9: "''image/jpeg'' \<noteq> []" by simp
  have 10: "clean_latex_output (Some (strip ''```latex\<newline>image/png\<newline>```'')) = Some ''image/png''"
    by (simp add: clean_eval)
  have 11: "''image/png'' \<noteq> []" by simp
  have 12: "write_ok ?e ''alg1.tex'' ''image/jpeg''" by (simp add: env_of_def)
  have 13: "write_ok ?e ''alg1.tex'' ''image/png''" by (simp add: env_of_def)
  have 14: "codes world0 = Map.empty" by (simp add: world0_def)
  from same_stem_overwrites [OF 1 2 3 4 5 6 7 8 9 10 11 12 13 14] show ?thesis
    by (simp add: world0_def)
qed


end
